theory Spec2Isabelle
  imports Complex_Main "HOL-Library.Char_ord" "HOL-Library.List_Lexorder"
begin

section \<open>The cluster state controller of a Certificate Transparency log\<close>

text \<open>
  A shallow embedding of \<^verbatim>\<open>cpp/log/cluster_state_controller-inl.h\<close>. The members of
  \<^verbatim>\<open>ClusterStateController\<close> are the fields of one record; every member function takes
  the record and returns the new one. The calls the controller makes to its collaborators
  (the election, the store, the condition variable) and its two decisive log lines are
  appended to a trace kept in the record. A failed \<^verbatim>\<open>CHECK\<close> ends the process: it is
  the left summand of the result, together with the state at the moment of the abort.
\<close>

subsection \<open>Messages\<close>

text \<open>
  Modelled from the spec: the protocol buffer messages of \<^verbatim>\<open>proto/ct.pb.h\<close>
  (\<^verbatim>\<open>SignedTreeHead\<close>, \<^verbatim>\<open>ClusterNodeState\<close>, \<^verbatim>\<open>ClusterConfig\<close>) are not among the sources.
  The fields are the ones the data model of the spec lists and the controller reads.
  An optional message field is an \<open>option\<close>; a scalar field that was never set reads as
  its default, 0 or the empty string. \<^verbatim>\<open>tree_size\<close> and \<^verbatim>\<open>contiguous_tree_size\<close> are
  64-bit signed values, \<^verbatim>\<open>timestamp\<close> is a 64-bit unsigned value; none of them is ever
  the operand of an arithmetic operation, so they are \<open>int\<close> and \<open>nat\<close>. The root
  hash stands for the rest of a tree head, which the controller copies and never reads.
\<close>

record signed_tree_head =
  timestamp :: nat
  tree_size :: int
  sha256_root_hash :: string

record cluster_node_state =
  node_id :: string
  hostname :: string
  log_port :: nat
  newest_sth :: "signed_tree_head option"
  contiguous_tree_size :: int

text \<open>
  \<^verbatim>\<open>minimum_serving_fraction\<close> is a \<^verbatim>\<open>double\<close>: a real number, of which the code can
  hold only those that a double represents.
\<close>

record cluster_config =
  minimum_serving_nodes :: int
  minimum_serving_fraction :: real

definition default_sth :: signed_tree_head where
  "default_sth = \<lparr>timestamp = 0, tree_size = 0, sha256_root_hash = []\<rparr>"

definition default_node_state :: cluster_node_state where
  "default_node_state =
     \<lparr>node_id = [], hostname = [], log_port = 0, newest_sth = None,
      contiguous_tree_size = 0\<rparr>"

definition default_config :: cluster_config where
  "default_config = \<lparr>minimum_serving_nodes = 0, minimum_serving_fraction = 0\<rparr>"

text \<open>\<^verbatim>\<open>Update<T>\<close>: whether the entry exists, and the entry of the handle.\<close>

record 'a update =
  exists :: bool
  entry :: 'a

subsection \<open>Ordered maps\<close>

text \<open>
  A \<^verbatim>\<open>std::map\<close> is an association list in ascending order of its keys, so that a forward
  iteration is the list and a reverse iteration is the reversed list.
  \<open>map_subscript d m k\<close> is the value that \<^verbatim>\<open>m[k]\<close> reads, \<open>d\<close> being the
  value-initialised element that \<^verbatim>\<open>operator[]\<close> inserts under a missing key;
  \<open>map_assign\<close> is \<^verbatim>\<open>m[k] = v\<close>; \<open>map_erase\<close> is \<^verbatim>\<open>m.erase(k)\<close>, with the number of
  elements it removed.
\<close>

definition map_subscript :: "'v \<Rightarrow> ('k \<times> 'v) list \<Rightarrow> 'k \<Rightarrow> 'v" where
  "map_subscript d m k = (case map_of m k of None \<Rightarrow> d | Some v \<Rightarrow> v)"

fun map_assign :: "'k::linorder \<Rightarrow> 'v \<Rightarrow> ('k \<times> 'v) list \<Rightarrow> ('k \<times> 'v) list" where
  "map_assign k v [] = [(k, v)]"
| "map_assign k v ((k', v') # m) =
     (if k < k' then (k, v) # (k', v') # m
      else if k = k' then (k, v) # m
      else (k', v') # map_assign k v m)"

fun map_erase :: "'k \<Rightarrow> ('k \<times> 'v) list \<Rightarrow> nat \<times> ('k \<times> 'v) list" where
  "map_erase k [] = (0, [])"
| "map_erase k ((k', v') # m) =
     (if k = k' then (1, m)
      else (case map_erase k m of (n, m') \<Rightarrow> (n, (k', v') # m')))"

subsection \<open>The controller\<close>

text \<open>The calls to the collaborators, and the two log lines that tell how a calculation ended.\<close>

datatype call =
    StartElection
  | StopElection
  | IsMaster bool
  | SetClusterNodeState cluster_node_state
  | SetServingSTH signed_tree_head
  | NotifyAll
  | LogCanServe int int
  | LogFailedToDetermine

datatype abort =
    CheckTimestamp
  | CheckContiguousNonNegative
  | CheckContiguousMonotone
  | CheckErase
  | CheckTreeSize
  | CheckCurrentTreeSize
  | CheckCalculatedNotNull

record controller =
  local_node_state :: cluster_node_state
  all_node_states :: "(string \<times> cluster_node_state) list"
  cluster_config :: cluster_config
  actual_serving_sth :: "signed_tree_head option"
  calculated_serving_sth :: "signed_tree_head option"
  exiting :: bool
  update_required :: bool
  calls :: "call list"

type_synonym result = "(abort \<times> controller) + controller"

text \<open>The state the constructor leaves: every member default-constructed.\<close>

definition init :: controller where
  "init =
     \<lparr>local_node_state = default_node_state, all_node_states = [],
      cluster_config = default_config, actual_serving_sth = None,
      calculated_serving_sth = None, exiting = False, update_required = False,
      calls = []\<rparr>"

definition emit :: "call list \<Rightarrow> controller \<Rightarrow> controller" where
  "emit cs st = st\<lparr>calls := calls st @ cs\<rparr>"

subsection \<open>DetermineElectionParticipation and PushLocalNodeState\<close>

definition DetermineElectionParticipation :: "controller \<Rightarrow> controller" where
  "DetermineElectionParticipation st =
     (case actual_serving_sth st of
        None \<Rightarrow> emit [StopElection] st
      | Some sth \<Rightarrow>
          if tree_size sth > contiguous_tree_size (local_node_state st)
          then emit [StopElection] st
          else emit [StartElection] st)"

definition PushLocalNodeState :: "controller \<Rightarrow> controller" where
  "PushLocalNodeState st =
     (let st1 = DetermineElectionParticipation st
      in emit [SetClusterNodeState (local_node_state st1)] st1)"

subsection \<open>The local mutators\<close>

definition NewTreeHead :: "controller \<Rightarrow> signed_tree_head \<Rightarrow> result" where
  "NewTreeHead st sth =
     (case newest_sth (local_node_state st) of
        Some prev \<Rightarrow>
          if \<not> timestamp sth \<ge> timestamp prev then Inl (CheckTimestamp, st)
          else Inr (PushLocalNodeState
                 (st\<lparr>local_node_state := (local_node_state st)\<lparr>newest_sth := Some sth\<rparr>\<rparr>))
      | None \<Rightarrow>
          Inr (PushLocalNodeState
                 (st\<lparr>local_node_state := (local_node_state st)\<lparr>newest_sth := Some sth\<rparr>\<rparr>)))"

definition ContiguousTreeSizeUpdated :: "controller \<Rightarrow> int \<Rightarrow> result" where
  "ContiguousTreeSizeUpdated st new_contiguous_tree_size =
     (if \<not> new_contiguous_tree_size \<ge> 0 then Inl (CheckContiguousNonNegative, st)
      else if \<not> new_contiguous_tree_size \<ge> contiguous_tree_size (local_node_state st)
      then Inl (CheckContiguousMonotone, st)
      else Inr (PushLocalNodeState
             (st\<lparr>local_node_state :=
                   (local_node_state st)\<lparr>contiguous_tree_size := new_contiguous_tree_size\<rparr>\<rparr>)))"

definition SetNodeHostPort :: "controller \<Rightarrow> string \<Rightarrow> nat \<Rightarrow> controller" where
  "SetNodeHostPort st host port =
     PushLocalNodeState
       (st\<lparr>local_node_state := (local_node_state st)\<lparr>hostname := host, log_port := port\<rparr>\<rparr>)"

subsection \<open>CalculateServingSTH\<close>

text \<open>
  The first loop, over \<^verbatim>\<open>all_node_states_\<close> in the order of the node ids: the number of
  nodes at each tree size and the tree head kept for each size. Reading
  \<^verbatim>\<open>sth_by_size[tree_size]\<close> in the comparison inserts a default-constructed tree head
  (timestamp 0, tree size 0) under a size seen for the first time, and the node's tree head
  replaces the entry only when its timestamp is strictly greater.
\<close>

fun node_loop ::
  "(string \<times> cluster_node_state) list \<Rightarrow> (int \<times> signed_tree_head) list \<Rightarrow>
   (int \<times> int) list \<Rightarrow> abort + ((int \<times> signed_tree_head) list \<times> (int \<times> int) list)" where
  "node_loop [] sth_by_size num_nodes_by_sth_size = Inr (sth_by_size, num_nodes_by_sth_size)"
| "node_loop (node # rest) sth_by_size num_nodes_by_sth_size =
     (case newest_sth (snd node) of
        None \<Rightarrow> node_loop rest sth_by_size num_nodes_by_sth_size
      | Some sth \<Rightarrow>
          if \<not> 0 \<le> tree_size sth then Inl CheckTreeSize
          else
            let n = map_assign (tree_size sth)
                      (map_subscript 0 num_nodes_by_sth_size (tree_size sth) + 1)
                      num_nodes_by_sth_size;
                cur = map_subscript default_sth sth_by_size (tree_size sth);
                s = map_assign (tree_size sth)
                      (if timestamp sth > timestamp cur then sth else cur) sth_by_size
            in node_loop rest s n)"

text \<open>
  \<^verbatim>\<open>const int current_tree_size(...)\<close> narrows the 64-bit tree size to an \<^verbatim>\<open>int\<close> of
  32 bits: the value modulo \<open>2 ^ 32\<close>, read as two's complement.
\<close>

definition int32_of :: "int \<Rightarrow> int" where
  "int32_of x = (x + 2 ^ 31) mod 2 ^ 32 - 2 ^ 31"

text \<open>
  \<^verbatim>\<open>static_cast<double>(num_nodes_seen) / all_node_states_.size()\<close> divides two doubles
  that hold integers exactly (a count of map elements is far below \<open>2 ^ 53\<close>). The result
  is the quotient rounded to the nearest double: the nearest number with 53 significant
  bits, the one with an even last bit when two are equally near. \<open>normalise\<close> doubles the
  numerator until the quotient has 53 bits before the binary point, keeping count of the
  factor; \<open>round_half_even a b\<close> is the integer nearest to \<open>a / b\<close>. A quotient of counts
  never reaches \<open>2 ^ 53\<close> and never underflows, so no other scaling is needed.
\<close>

function normalise :: "int \<Rightarrow> int \<Rightarrow> int \<Rightarrow> int \<times> int" where
  "normalise n d p =
     (if 0 < n \<and> n < 2 ^ 52 * d then normalise (2 * n) d (2 * p) else (n, p))"
  by pat_completeness auto
termination
  by (relation "measure (\<lambda>(n, d, p). nat (2 ^ 52 * d - n))") auto

declare normalise.simps [simp del]

definition round_half_even :: "int \<Rightarrow> int \<Rightarrow> int" where
  "round_half_even a b =
     (let q = a div b; r = a mod b
      in if 2 * r < b then q
         else if b < 2 * r then q + 1
         else if even q then q else q + 1)"

definition double_div :: "int \<Rightarrow> nat \<Rightarrow> real" where
  "double_div n d =
     (case normalise \<bar>n\<bar> (int d) 1 of
        (m, p) \<Rightarrow> real_of_int (sgn n * round_half_even m (int d)) / real_of_int p)"

text \<open>
  The second loop, from the largest size downwards while the size is at least
  \<^verbatim>\<open>current_tree_size\<close>: the first size at which the nodes seen so far meet both
  thresholds, with the number of nodes seen. \<open>n_states\<close> is \<^verbatim>\<open>all_node_states_.size()\<close>; the
  loop body runs only when some node has a tree head, so \<open>n_states\<close> is not 0 there.
\<close>

fun size_loop ::
  "(int \<times> int) list \<Rightarrow> int \<Rightarrow> int \<Rightarrow> nat \<Rightarrow> cluster_config \<Rightarrow> (int \<times> int) option" where
  "size_loop [] current_tree_size num_nodes_seen n_states cfg = None"
| "size_loop (it # rest) current_tree_size num_nodes_seen n_states cfg =
     (if fst it \<ge> current_tree_size then
        let seen = num_nodes_seen + snd it;
            serving_fraction = double_div seen n_states
        in if serving_fraction \<ge> minimum_serving_fraction cfg \<and>
              seen \<ge> minimum_serving_nodes cfg
           then Some (fst it, seen)
           else size_loop rest current_tree_size seen n_states cfg
      else None)"

text \<open>
  \<open>is_master\<close> is what \<^verbatim>\<open>election_->IsMaster()\<close> answers if the calculation asks, which
  it does only after an assignment.
\<close>

definition CalculateServingSTH :: "controller \<Rightarrow> bool \<Rightarrow> result" where
  "CalculateServingSTH st is_master =
     (case node_loop (all_node_states st) [] [] of
        Inl a \<Rightarrow> Inl (a, st)
      | Inr (sth_by_size, num_nodes_by_sth_size) \<Rightarrow>
          let current_tree_size =
                int32_of (case calculated_serving_sth st of
                            Some c \<Rightarrow> tree_size c | None \<Rightarrow> 0)
          in if \<not> 0 \<le> current_tree_size then Inl (CheckCurrentTreeSize, st)
             else
               (case size_loop (rev num_nodes_by_sth_size) current_tree_size 0
                       (length (all_node_states st)) (cluster_config st) of
                  Some (sz, seen) \<Rightarrow>
                    let st1 = emit [LogCanServe sz seen]
                                (st\<lparr>calculated_serving_sth :=
                                      Some (map_subscript default_sth sth_by_size sz)\<rparr>)
                    in if is_master
                       then Inr (emit [NotifyAll]
                                   ((emit [IsMaster True] st1)\<lparr>update_required := True\<rparr>))
                       else Inr (emit [IsMaster False] st1)
                | None \<Rightarrow> Inr (emit [LogFailedToDetermine] st)))"

subsection \<open>The watch callbacks\<close>

fun update_loop ::
  "cluster_node_state update list \<Rightarrow> (string \<times> cluster_node_state) list \<Rightarrow>
   (string \<times> cluster_node_state) list \<times> bool" where
  "update_loop [] m = (m, True)"
| "update_loop (u # us) m =
     (if exists u then update_loop us (map_assign (node_id (entry u)) (entry u) m)
      else (case map_erase (node_id (entry u)) m of
              (n, m') \<Rightarrow> if 1 = n then update_loop us m' else (m', False)))"

definition OnClusterStateUpdated ::
  "controller \<Rightarrow> cluster_node_state update list \<Rightarrow> bool \<Rightarrow> result" where
  "OnClusterStateUpdated st updates is_master =
     (case update_loop updates (all_node_states st) of
        (m, ok) \<Rightarrow>
          if ok then CalculateServingSTH (st\<lparr>all_node_states := m\<rparr>) is_master
          else Inl (CheckErase, st\<lparr>all_node_states := m\<rparr>))"

definition OnClusterConfigUpdated ::
  "controller \<Rightarrow> cluster_config update \<Rightarrow> bool \<Rightarrow> result" where
  "OnClusterConfigUpdated st u is_master =
     (if \<not> exists u then Inr st
      else CalculateServingSTH (st\<lparr>cluster_config := entry u\<rparr>) is_master)"

definition OnServingSthUpdated :: "controller \<Rightarrow> signed_tree_head update \<Rightarrow> controller" where
  "OnServingSthUpdated st u =
     (if \<not> exists u
      then DetermineElectionParticipation (st\<lparr>actual_serving_sth := None\<rparr>)
      else DetermineElectionParticipation (st\<lparr>actual_serving_sth := Some (entry u)\<rparr>))"

subsection \<open>The publisher thread\<close>

text \<open>
  One pass of the loop of \<^verbatim>\<open>ClusterServingSTHUpdater\<close>, from the wait to the write. The
  wait returns only once \<^verbatim>\<open>update_required_ || exiting_\<close>: while neither holds the thread
  sleeps and the pass does nothing. \<open>is_master\<close> is the answer of
  \<^verbatim>\<open>election_->IsMaster()\<close> after the lock is released.
\<close>

definition ClusterServingSTHUpdater :: "controller \<Rightarrow> bool \<Rightarrow> result" where
  "ClusterServingSTHUpdater st is_master =
     (if \<not> (update_required st \<or> exiting st) then Inr st
      else if exiting st then Inr st
      else (case calculated_serving_sth st of
              None \<Rightarrow> Inl (CheckCalculatedNotNull, st)
            | Some local_sth \<Rightarrow>
                let st1 = emit [IsMaster is_master] (st\<lparr>update_required := False\<rparr>)
                in if is_master then Inr (emit [SetServingSTH local_sth] st1)
                   else Inr st1))"

subsection \<open>Runs\<close>

text \<open>
  The controller reacts to the callbacks of its three watches, to the calls of the signer
  and the replicator, and to the passes of its publisher thread. All of them but the
  write of the publisher run under the one mutex, so a run is a sequence of such events.
\<close>

datatype event =
    EvNewTreeHead signed_tree_head
  | EvContiguousTreeSizeUpdated int
  | EvSetNodeHostPort string nat
  | EvClusterStateUpdated "cluster_node_state update list" bool
  | EvClusterConfigUpdated "cluster_config update" bool
  | EvServingSthUpdated "signed_tree_head update"
  | EvPublisher bool

fun step :: "controller \<Rightarrow> event \<Rightarrow> result" where
  "step st (EvNewTreeHead sth) = NewTreeHead st sth"
| "step st (EvContiguousTreeSizeUpdated n) = ContiguousTreeSizeUpdated st n"
| "step st (EvSetNodeHostPort host port) = Inr (SetNodeHostPort st host port)"
| "step st (EvClusterStateUpdated updates is_master) = OnClusterStateUpdated st updates is_master"
| "step st (EvClusterConfigUpdated u is_master) = OnClusterConfigUpdated st u is_master"
| "step st (EvServingSthUpdated u) = Inr (OnServingSthUpdated st u)"
| "step st (EvPublisher is_master) = ClusterServingSTHUpdater st is_master"

fun run :: "controller \<Rightarrow> event list \<Rightarrow> result" where
  "run st [] = Inr st"
| "run st (e # es) = (case step st e of Inl a \<Rightarrow> Inl a | Inr st' \<Rightarrow> run st' es)"

subsection \<open>Notions of the specification\<close>

text \<open>The tree heads the peers announce, in the order of the node ids.\<close>

definition node_sths :: "(string \<times> cluster_node_state) list \<Rightarrow> signed_tree_head list" where
  "node_sths nodes = List.map_filter (\<lambda>node. newest_sth (snd node)) nodes"

text \<open>The number of peers whose newest tree head has a tree size of at least \<open>s\<close>.\<close>

definition peers_at_least :: "(string \<times> cluster_node_state) list \<Rightarrow> int \<Rightarrow> nat" where
  "peers_at_least nodes s =
     length (filter (\<lambda>node. case newest_sth (snd node) of
                                 None \<Rightarrow> False
                               | Some sth \<Rightarrow> s \<le> tree_size sth) nodes)"

text \<open>The state a run ends in, whether it returned or aborted.\<close>

definition final :: "result \<Rightarrow> controller" where
  "final r = (case r of Inl (a, st) \<Rightarrow> st | Inr st \<Rightarrow> st)"

text \<open>
  A trace is guarded when each \<^verbatim>\<open>SetServingSTH\<close> in it comes right after an
  \<^verbatim>\<open>IsMaster\<close> that answered true. \<open>ok\<close> tells whether the call before the list was one.
\<close>

fun guarded_from :: "bool \<Rightarrow> call list \<Rightarrow> bool" where
  "guarded_from ok [] = True"
| "guarded_from ok (c # cs) =
     ((case c of SetServingSTH s \<Rightarrow> ok | _ \<Rightarrow> True) \<and> guarded_from (c = IsMaster True) cs)"

definition guarded :: "call list \<Rightarrow> bool" where
  "guarded cs = guarded_from False cs"

fun is_SetServingSTH :: "call \<Rightarrow> bool" where
  "is_SetServingSTH (SetServingSTH s) = True"
| "is_SetServingSTH c = False"

text \<open>The passes of the publisher in which the election answers that this node is master.\<close>

fun master_pass :: "event \<Rightarrow> bool" where
  "master_pass (EvPublisher is_master) = is_master"
| "master_pass e = False"

subsection \<open>The scenarios of the specification\<close>

definition sth_of :: "nat \<Rightarrow> int \<Rightarrow> string \<Rightarrow> signed_tree_head" where
  "sth_of ts sz h = \<lparr>timestamp = ts, tree_size = sz, sha256_root_hash = h\<rparr>"

definition peer :: "string \<Rightarrow> signed_tree_head option \<Rightarrow> string \<times> cluster_node_state" where
  "peer i s =
     (i, \<lparr>node_id = i, hostname = [], log_port = 0, newest_sth = s,
          contiguous_tree_size = 0\<rparr>)"

definition present :: "'a \<Rightarrow> 'a update" where
  "present e = \<lparr>exists = True, entry = e\<rparr>"

definition absent :: "'a \<Rightarrow> 'a update" where
  "absent e = \<lparr>exists = False, entry = e\<rparr>"

text \<open>S1: two of four peers at size 10, thresholds of two nodes and one half.\<close>

definition S1_config :: cluster_config where
  "S1_config = \<lparr>minimum_serving_nodes = 2, minimum_serving_fraction = 0.5\<rparr>"

definition S1_peers :: "(string \<times> cluster_node_state) list" where
  "S1_peers =
     [peer ''A'' (Some (sth_of 100 10 ''a'')), peer ''B'' (Some (sth_of 110 10 ''b'')),
      peer ''C'' (Some (sth_of 90 7 ''c'')), peer ''D'' None]"

definition S1_events :: "event list" where
  "S1_events =
     [EvClusterConfigUpdated (present S1_config) True,
      EvClusterStateUpdated (map (\<lambda>p. present (snd p)) S1_peers) True]"

text \<open>
  The state in which the calculation of S1 starts on a master (the configuration came
  first, and its calculation found no peer), and the state it leaves.
\<close>

definition S1_state :: controller where
  "S1_state =
     init\<lparr>all_node_states := S1_peers, cluster_config := S1_config,
          calls := [LogFailedToDetermine]\<rparr>"

definition S1_served :: controller where
  "S1_served =
     S1_state\<lparr>calculated_serving_sth := Some (sth_of 110 10 ''b''), update_required := True,
              calls := [LogFailedToDetermine, LogCanServe 10 2, IsMaster True, NotifyAll]\<rparr>"

text \<open>S3: peer B has left.\<close>

definition S3_peers :: "(string \<times> cluster_node_state) list" where
  "S3_peers =
     [peer ''A'' (Some (sth_of 100 10 ''a'')), peer ''C'' (Some (sth_of 90 7 ''c'')),
      peer ''D'' None]"

text \<open>S5: the publisher has written the tree head of S1, then the calculation runs again.\<close>

definition S5_published :: controller where
  "S5_published =
     S1_served\<lparr>update_required := False,
               calls := calls S1_served @ [IsMaster True, SetServingSTH (sth_of 110 10 ''b'')]\<rparr>"

definition S5_again :: controller where
  "S5_again =
     S5_published\<lparr>update_required := True,
                  calls := calls S5_published @ [LogCanServe 10 2, IsMaster True, NotifyAll]\<rparr>"

text \<open>After S1, both peers at size 10 announce a tree head of size 12 that carries timestamp 0.\<close>

definition zero_timestamp_batch :: event where
  "zero_timestamp_batch =
     EvClusterStateUpdated
       [present (snd (peer ''A'' (Some (sth_of 0 12 ''a'')))),
        present (snd (peer ''B'' (Some (sth_of 0 12 ''b''))))] False"

text \<open>A first batch, before any configuration: one peer with a tree head of size 5, timestamp 0.\<close>

definition first_batch :: event where
  "first_batch = EvClusterStateUpdated [present (snd (peer ''A'' (Some (sth_of 0 5 ''a''))))] False"

definition first_batch_state :: controller where
  "first_batch_state = init\<lparr>all_node_states := [peer ''A'' (Some (sth_of 0 5 ''a''))]\<rparr>"

definition first_batch_served :: controller where
  "first_batch_served =
     first_batch_state\<lparr>calculated_serving_sth := Some default_sth,
                       calls := [LogCanServe 5 1, IsMaster False]\<rparr>"

text \<open>
  Tree sizes beyond 32 bits: two peers at size \<open>2 ^ 32\<close>; then B leaves and C arrives
  at size 3.
\<close>

definition wide_events :: "event list" where
  "wide_events =
     [EvClusterConfigUpdated (present S1_config) False,
      EvClusterStateUpdated
        [present (snd (peer ''A'' (Some (sth_of 100 4294967296 ''a'')))),
         present (snd (peer ''B'' (Some (sth_of 110 4294967296 ''b''))))] False]"

definition narrow_batch :: event where
  "narrow_batch =
     EvClusterStateUpdated
       [absent (snd (peer ''B'' None)),
        present (snd (peer ''C'' (Some (sth_of 120 3 ''c''))))] False"

text \<open>
  A threshold of one tenth: the double nearest to 0.1, which is a little above it. One of
  ten peers has a tree head.
\<close>

definition tenth_config :: cluster_config where
  "tenth_config =
     \<lparr>minimum_serving_nodes = 1,
      minimum_serving_fraction = 3602879701896397 / 36028797018963968\<rparr>"

definition tenth_peers :: "(string \<times> cluster_node_state) list" where
  "tenth_peers =
     [peer ''A'' (Some (sth_of 100 5 ''a'')), peer ''B'' None, peer ''C'' None, peer ''D'' None,
      peer ''E'' None, peer ''F'' None, peer ''G'' None, peer ''H'' None, peer ''I'' None,
      peer ''J'' None]"

definition tenth_events :: "event list" where
  "tenth_events =
     [EvClusterConfigUpdated (present tenth_config) False,
      EvClusterStateUpdated (map (\<lambda>p. present (snd p)) tenth_peers) False]"

definition tenth_served :: controller where
  "tenth_served =
     init\<lparr>all_node_states := tenth_peers, cluster_config := tenth_config,
          calculated_serving_sth := Some (sth_of 100 5 ''a''),
          calls := [LogFailedToDetermine, LogCanServe 5 1, IsMaster False]\<rparr>"

text \<open>S4: the local node has 8 contiguous entries when a serving tree head of size 10 arrives.\<close>

definition S4_state :: controller where
  "S4_state = init\<lparr>local_node_state := default_node_state\<lparr>contiguous_tree_size := 8\<rparr>\<rparr>"

text \<open>A local node whose newest tree head has timestamp 100.\<close>

definition signed_state :: controller where
  "signed_state =
     init\<lparr>local_node_state := default_node_state\<lparr>newest_sth := Some (sth_of 100 10 ''a'')\<rparr>\<rparr>"

section \<open>Properties\<close>

lemmas scenario_defs = sth_of_def peer_def present_def absent_def S1_config_def S1_peers_def
  S1_events_def S1_state_def S1_served_def S3_peers_def S5_published_def S5_again_def
  zero_timestamp_batch_def first_batch_def first_batch_state_def first_batch_served_def
  wide_events_def narrow_batch_def S4_state_def signed_state_def init_def default_config_def
  default_node_state_def tenth_config_def tenth_peers_def tenth_events_def tenth_served_def

lemmas handler_defs = CalculateServingSTH_def OnClusterStateUpdated_def
  OnClusterConfigUpdated_def OnServingSthUpdated_def ClusterServingSTHUpdater_def
  NewTreeHead_def ContiguousTreeSizeUpdated_def SetNodeHostPort_def PushLocalNodeState_def
  DetermineElectionParticipation_def emit_def map_subscript_def default_sth_def int32_of_def
  less_char_def double_div_def round_half_even_def normalise.simps

subsection \<open>The division of doubles\<close>

lemma normalise_scaled:
  "normalise n d p = (m, q) \<Longrightarrow> 0 < p \<Longrightarrow>
   0 < q \<and> m * p = n * q \<and> (0 < n \<longrightarrow> 2 ^ 52 * d \<le> m)"
proof (induction n d p rule: normalise.induct)
  case (1 n d p)
  show ?case
  proof (cases "0 < n \<and> n < 2 ^ 52 * d")
    case True
    with "1.prems" have "normalise (2 * n) d (2 * p) = (m, q)"
      by (simp add: normalise.simps [of n d p])
    from "1.IH" [OF True this] "1.prems"(2) True show ?thesis by auto
  next
    case False
    with "1.prems" show ?thesis
      by (auto simp: normalise.simps [of n d p])
  qed
qed

lemma round_half_even_upper: "0 < b \<Longrightarrow> 2 * b * round_half_even a b \<le> 2 * a + b"
proof -
  assume b: "0 < b"
  define x where "x = b * (a div b)"
  have a: "a = x + a mod b" by (simp add: x_def)
  have r: "0 \<le> a mod b" using b by simp
  show ?thesis
  proof (cases "round_half_even a b = a div b")
    case True
    then have "2 * b * round_half_even a b = 2 * x" by (simp add: x_def)
    with a r b show ?thesis by linarith
  next
    case False
    then have up: "round_half_even a b = a div b + 1" and half: "b \<le> 2 * (a mod b)"
      by (auto simp: round_half_even_def Let_def split: if_splits)
    from up have "2 * b * round_half_even a b = 2 * x + 2 * b"
      by (simp add: x_def algebra_simps)
    with a half show ?thesis by linarith
  qed
qed

lemma round_half_even_nonneg: "0 \<le> a \<Longrightarrow> 0 \<le> b \<Longrightarrow> 0 \<le> round_half_even a b"
  by (auto simp: round_half_even_def Let_def pos_imp_zdiv_nonneg_iff div_int_pos_iff)

lemma double_div_nonneg: "0 \<le> n \<Longrightarrow> 0 \<le> double_div n d"
proof -
  assume n: "0 \<le> n"
  obtain m p where mp: "normalise n (int d) 1 = (m, p)" by (cases "normalise n (int d) 1")
  from normalise_scaled [OF mp] have p: "0 < p" and "m * 1 = n * p" by simp_all
  with n have "0 \<le> m" by simp
  then have "0 \<le> round_half_even m (int d)" by (simp add: round_half_even_nonneg)
  with n p show ?thesis
    by (simp add: double_div_def mp sgn_if)
qed

text \<open>The rounded quotient exceeds the exact one by at most one part in \<open>2 ^ 53\<close>.\<close>

lemma double_div_upper:
  assumes n: "0 \<le> n" and d: "0 < d"
  shows "double_div n d \<le> (1 + 1 / 2 ^ 53) * (real_of_int n / real d)"
proof (cases "n = 0")
  case True
  then show ?thesis
    by (simp add: double_div_def round_half_even_def normalise.simps)
next
  case False
  with n have pos: "0 < n" by simp
  obtain m p where mp: "normalise n (int d) 1 = (m, p)" by (cases "normalise n (int d) 1")
  from normalise_scaled [OF mp] pos have p: "0 < p" and m: "m = n * p"
    and big: "2 ^ 52 * int d \<le> m" by simp_all
  define r where "r = real_of_int (round_half_even m (int d))"
  define q where "q = real_of_int n / real d"
  define P where "P = real_of_int p"
  define K :: real where "K = 1 / 2 ^ 53"
  have dp: "0 < real d" "0 < P" using d p by (simp_all add: P_def)
  from d have "2 * int d * round_half_even m (int d) \<le> 2 * m + int d"
    by (intro round_half_even_upper) simp
  then have "real_of_int (2 * int d * round_half_even m (int d)) \<le> real_of_int (2 * m + int d)"
    by (rule of_int_le_iff [THEN iffD2])
  then have "2 * real d * r \<le> 2 * (real_of_int n * P) + real d"
    by (simp add: r_def m P_def)
  then have "2 * r \<le> (2 * (real_of_int n * P) + real d) / real d"
    using dp by (simp add: pos_le_divide_eq algebra_simps)
  also have "\<dots> = 2 * (q * P) + 1"
    using dp by (simp add: q_def field_simps)
  finally have r: "r \<le> q * P + 1 / 2" by simp
  from big have "real_of_int (2 ^ 52 * int d) \<le> real_of_int m"
    by (rule of_int_le_iff [THEN iffD2])
  then have "2 ^ 52 * real d \<le> real_of_int n * P" by (simp add: m P_def)
  then have "2 ^ 52 \<le> real_of_int n * P / real d"
    using dp by (simp add: pos_le_divide_eq)
  then have "2 ^ 52 \<le> q * P" by (simp add: q_def)
  then have "1 / 2 \<le> K * (q * P)" by (simp add: K_def)
  with r have "r \<le> (1 + K) * q * P" by (simp add: algebra_simps)
  then have "r / P \<le> (1 + K) * q"
    using dp by (simp add: pos_divide_le_eq)
  with pos show ?thesis
    by (simp add: double_div_def mp r_def q_def P_def K_def)
qed

text \<open>
  One tenth and one third round to the doubles that every IEEE 754 division gives,
  \<^verbatim>\<open>0x3FB999999999999A\<close> and \<^verbatim>\<open>0x3FD5555555555555\<close>; one half and one are exact.
\<close>

lemma double_div_examples:
  "double_div 1 10 = 7205759403792794 / 2 ^ 56 \<and>
   double_div 1 3 = 6004799503160661 / 2 ^ 54 \<and>
   double_div 2 4 = 1 / 2 \<and> double_div 2 2 = 1 \<and> double_div 0 7 = 0"
  by (simp add: double_div_def round_half_even_def normalise.simps)

subsection \<open>The two loops of the calculation\<close>

lemma node_sths_Nil [simp]: "node_sths [] = []"
  by (simp add: node_sths_def map_filter_simps)

lemma node_sths_Cons:
  "node_sths (node # rest) =
     (case newest_sth (snd node) of None \<Rightarrow> node_sths rest | Some sth \<Rightarrow> sth # node_sths rest)"
  by (simp add: node_sths_def map_filter_simps split: option.split)

lemma map_of_map_assign: "map_of (map_assign k v m) = (map_of m)(k \<mapsto> v)"
  by (induction m) (auto simp: fun_upd_twist)

lemma map_subscript_map_assign:
  "map_subscript d (map_assign k v m) k' = (if k' = k then v else map_subscript d m k')"
  by (simp add: map_subscript_def map_of_map_assign)

lemma keys_map_assign: "fst ` set (map_assign k v m) = insert k (fst ` set m)"
  by (simp add: dom_map_of_conv_image_fst [symmetric] map_of_map_assign)

lemma sorted_map_assign:
  "sorted_wrt (<) (map fst m) \<Longrightarrow> sorted_wrt (<) (map fst (map_assign k v m))"
proof (induction m)
  case Nil
  then show ?case by simp
next
  case (Cons a m)
  have "fst ` set (map_assign k v m) = insert k (fst ` set m)"
    by (rule keys_map_assign)
  with Cons show ?case
    by (cases a) (auto simp: image_iff)
qed

lemma map_subscript_Nil [simp]: "map_subscript d [] k = d"
  by (simp add: map_subscript_def)

text \<open>What the first loop leaves in the two maps.\<close>

lemma node_loop_counts:
  "node_loop nodes sbs nn = Inr (sbs', nn') \<Longrightarrow> sorted_wrt (<) (map fst nn) \<Longrightarrow>
   sorted_wrt (<) (map fst nn') \<and>
   (\<forall>k. map_subscript 0 nn' k =
          map_subscript 0 nn k + int (length (filter (\<lambda>sth. tree_size sth = k) (node_sths nodes)))) \<and>
   fst ` set nn' = fst ` set nn \<union> tree_size ` set (node_sths nodes) \<and>
   (\<forall>sth \<in> set (node_sths nodes). 0 \<le> tree_size sth)"
proof (induction nodes arbitrary: sbs nn)
  case Nil
  then show ?case by simp
next
  case (Cons node rest)
  show ?case
  proof (cases "newest_sth (snd node)")
    case None
    with Cons.prems have "node_loop rest sbs nn = Inr (sbs', nn')" by simp
    from Cons.IH [OF this Cons.prems(2)] None show ?thesis
      by (simp add: node_sths_Cons)
  next
    case (Some sth)
    let ?n = "map_assign (tree_size sth) (map_subscript 0 nn (tree_size sth) + 1) nn"
    from Cons.prems(1) Some have nonneg: "0 \<le> tree_size sth"
      by (simp split: if_splits)
    with Cons.prems(1) Some obtain s where run: "node_loop rest s ?n = Inr (sbs', nn')"
      by (simp add: Let_def)
    have "sorted_wrt (<) (map fst ?n)"
      using Cons.prems(2) by (rule sorted_map_assign)
    from Cons.IH [OF run this] nonneg Some show ?thesis
      by (auto simp: node_sths_Cons map_subscript_map_assign keys_map_assign)
  qed
qed

lemma node_loop_sths:
  "node_loop nodes sbs nn = Inr (sbs', nn') \<Longrightarrow>
   map_subscript default_sth sbs' k = map_subscript default_sth sbs k \<or>
   (map_subscript default_sth sbs' k \<in> set (node_sths nodes) \<and>
    tree_size (map_subscript default_sth sbs' k) = k \<and>
    0 < timestamp (map_subscript default_sth sbs' k))"
proof (induction nodes arbitrary: sbs nn)
  case Nil
  then show ?case by simp
next
  case (Cons node rest)
  show ?case
  proof (cases "newest_sth (snd node)")
    case None
    with Cons.prems have "node_loop rest sbs nn = Inr (sbs', nn')" by simp
    from Cons.IH [OF this] None show ?thesis
      by (auto simp: node_sths_Cons)
  next
    case (Some sth)
    let ?cur = "map_subscript default_sth sbs (tree_size sth)"
    let ?s = "map_assign (tree_size sth) (if timestamp sth > timestamp ?cur then sth else ?cur) sbs"
    from Cons.prems(1) Some obtain n where run: "node_loop rest ?s n = Inr (sbs', nn')"
      by (simp add: Let_def split: if_splits)
    from Cons.IH [OF run] Some show ?thesis
      by (auto simp: node_sths_Cons map_subscript_map_assign split: if_splits)
  qed
qed


lemma length_filter_split:
  "length (filter (\<lambda>x. x = k) (zs::int list)) + length (filter (\<lambda>x. k < x) zs) =
   length (filter (\<lambda>x. k \<le> x) zs)"
  by (induction zs) auto

lemma size_loop_key:
  "size_loop ds c seen0 t cfg = Some (sz, seen) \<Longrightarrow> sz \<in> fst ` set ds \<and> c \<le> sz"
  by (induction ds arbitrary: seen0) (auto simp: Let_def split: if_splits)

text \<open>
  The second loop on a map in descending order whose entries count the sizes \<open>zs\<close>:
  when it starts with the number of sizes above every key left, it ends with the number
  of sizes not below the size it stops at.
\<close>

lemma size_loop_sound:
  "size_loop ds c seen0 t cfg = Some (sz, seen) \<Longrightarrow>
   sorted_wrt (>) (map fst ds) \<Longrightarrow>
   (\<forall>d \<in> set ds. snd d = int (length (filter (\<lambda>z. z = fst d) zs))) \<Longrightarrow>
   (\<forall>z \<in> set zs. z \<in> fst ` set ds \<or> (\<forall>k \<in> fst ` set ds. k < z)) \<Longrightarrow>
   seen0 = int (length (filter (\<lambda>z. \<forall>k \<in> fst ` set ds. k < z) zs)) \<Longrightarrow>
   seen = int (length (filter (\<lambda>z. sz \<le> z) zs)) \<and>
   minimum_serving_fraction cfg \<le> double_div seen t \<and>
   minimum_serving_nodes cfg \<le> seen"
proof (induction ds arbitrary: seen0)
  case Nil
  then show ?case by simp
next
  case (Cons d rest)
  obtain k n where d: "d = (k, n)" by (cases d)
  from Cons.prems(2) d have above: "\<forall>k' \<in> fst ` set rest. k' < k" by auto
  have n: "n = int (length (filter (\<lambda>z. z = k) zs))"
    using Cons.prems(3) d by simp
  have "filter (\<lambda>z. \<forall>k' \<in> fst ` set (d # rest). k' < z) zs = filter (\<lambda>z. k < z) zs"
    using above d by (intro filter_cong) auto
  with Cons.prems(5) have seen0: "seen0 = int (length (filter (\<lambda>z. k < z) zs))" by simp
  have seen1: "seen0 + n = int (length (filter (\<lambda>z. k \<le> z) zs))"
    using seen0 n length_filter_split [of k zs] by simp
  from Cons.prems(1) d have ge: "c \<le> k" by (simp split: if_splits)
  show ?case
  proof (cases "minimum_serving_fraction cfg \<le> double_div (seen0 + n) t \<and>
                minimum_serving_nodes cfg \<le> seen0 + n")
    case True
    with Cons.prems(1) d ge have "sz = k" "seen = seen0 + n" by (simp_all add: Let_def)
    with True seen1 show ?thesis by simp
  next
    case False
    with Cons.prems(1) d ge have run: "size_loop rest c (seen0 + n) t cfg = Some (sz, seen)"
      by (auto simp: Let_def)
    have sorted: "sorted_wrt (>) (map fst rest)" using Cons.prems(2) by simp
    have counts: "\<forall>d \<in> set rest. snd d = int (length (filter (\<lambda>z. z = fst d) zs))"
      using Cons.prems(3) by simp
    have cover: "\<forall>z \<in> set zs. z \<in> fst ` set rest \<or> (\<forall>k \<in> fst ` set rest. k < z)"
    proof
      fix z assume "z \<in> set zs"
      with Cons.prems(4) have "z \<in> fst ` set (d # rest) \<or> (\<forall>k \<in> fst ` set (d # rest). k < z)"
        by blast
      with above d show "z \<in> fst ` set rest \<or> (\<forall>k \<in> fst ` set rest. k < z)"
        by auto
    qed
    have "filter (\<lambda>z. \<forall>k' \<in> fst ` set rest. k' < z) zs = filter (\<lambda>z. k \<le> z) zs"
    proof (intro filter_cong refl)
      fix z assume z: "z \<in> set zs"
      with Cons.prems(4) have "z \<in> fst ` set (d # rest) \<or> (\<forall>k \<in> fst ` set (d # rest). k < z)"
        by blast
      with above d show "(\<forall>k' \<in> fst ` set rest. k' < z) = (k \<le> z)"
        by (auto simp: image_iff)
    qed
    with seen1 have "seen0 + n = int (length (filter (\<lambda>z. \<forall>k \<in> fst ` set rest. k < z) zs))"
      by simp
    from Cons.IH [OF run sorted counts cover this] show ?thesis .
  qed
qed


lemma size_loop_floor:
  "size_loop ds c seen0 t cfg = Some (sz, seen) \<Longrightarrow> sorted_wrt (>) (map fst ds) \<Longrightarrow>
   c' \<le> sz \<Longrightarrow> size_loop ds c' seen0 t cfg = Some (sz, seen)"
proof (induction ds arbitrary: seen0)
  case Nil
  then show ?case by simp
next
  case (Cons d rest)
  from Cons.prems(1) have ge: "c \<le> fst d" by (simp split: if_splits)
  show ?case
  proof (cases "minimum_serving_fraction cfg \<le> double_div (seen0 + snd d) t \<and>
                minimum_serving_nodes cfg \<le> seen0 + snd d")
    case True
    with Cons.prems(1) ge have "sz = fst d" "seen = seen0 + snd d" by (simp_all add: Let_def)
    with True Cons.prems(3) show ?thesis by (simp add: Let_def)
  next
    case False
    with Cons.prems(1) ge have run: "size_loop rest c (seen0 + snd d) t cfg = Some (sz, seen)"
      by (auto simp: Let_def)
    then have "sz \<in> fst ` set rest" by (simp add: size_loop_key)
    with Cons.prems(2) have "sz < fst d" by auto
    with Cons.prems(3) have "c' \<le> fst d" by simp
    moreover have "size_loop rest c' (seen0 + snd d) t cfg = Some (sz, seen)"
      using Cons.IH [OF run _ Cons.prems(3)] Cons.prems(2) by simp
    ultimately show ?thesis using False by (auto simp: Let_def)
  qed
qed

lemma int32_of_le: "0 \<le> x \<Longrightarrow> int32_of x \<le> x"
proof -
  assume "0 \<le> x"
  then have "(x + 2 ^ 31) mod 2 ^ 32 \<le> x + 2 ^ 31"
    by (intro zmod_le_nonneg_dividend) simp
  then show ?thesis by (simp add: int32_of_def)
qed

text \<open>How a calculation that returns ends: with an assignment or with the warning.\<close>

lemma CalculateServingSTH_Inr:
  assumes "CalculateServingSTH st m = Inr st'"
  obtains sbs nn where
    "node_loop (all_node_states st) [] [] = Inr (sbs, nn)"
    "0 \<le> int32_of (case calculated_serving_sth st of Some c \<Rightarrow> tree_size c | None \<Rightarrow> 0)"
    "(case size_loop (rev nn)
             (int32_of (case calculated_serving_sth st of Some c \<Rightarrow> tree_size c | None \<Rightarrow> 0))
             0 (length (all_node_states st)) (cluster_config st) of
        None \<Rightarrow> st' = emit [LogFailedToDetermine] st
      | Some (sz, seen) \<Rightarrow>
          st' = (st\<lparr>calculated_serving_sth := Some (map_subscript default_sth sbs sz),
                     update_required := m \<or> update_required st,
                     calls := calls st @ [LogCanServe sz seen, IsMaster m] @
                              (if m then [NotifyAll] else [])\<rparr>))"
  using assms
  by (auto simp: CalculateServingSTH_def emit_def Let_def
      split: sum.splits option.splits if_splits prod.splits)

lemma CalculateServingSTH_CanServe:
  assumes "CalculateServingSTH st m = Inr st'"
    and "calls st' = calls st @ LogCanServe sz seen # cs"
  obtains sbs nn where
    "node_loop (all_node_states st) [] [] = Inr (sbs, nn)"
    "0 \<le> int32_of (case calculated_serving_sth st of Some c \<Rightarrow> tree_size c | None \<Rightarrow> 0)"
    "size_loop (rev nn)
       (int32_of (case calculated_serving_sth st of Some c \<Rightarrow> tree_size c | None \<Rightarrow> 0))
       0 (length (all_node_states st)) (cluster_config st) = Some (sz, seen)"
    "st' = (st\<lparr>calculated_serving_sth := Some (map_subscript default_sth sbs sz),
               update_required := m \<or> update_required st,
               calls := calls st @ [LogCanServe sz seen, IsMaster m] @
                        (if m then [NotifyAll] else [])\<rparr>)"
proof -
  from assms(1) obtain sbs nn where
    a: "node_loop (all_node_states st) [] [] = Inr (sbs, nn)" and
    b: "0 \<le> int32_of (case calculated_serving_sth st of Some c \<Rightarrow> tree_size c | None \<Rightarrow> 0)" and
    c: "(case size_loop (rev nn)
             (int32_of (case calculated_serving_sth st of Some c \<Rightarrow> tree_size c | None \<Rightarrow> 0))
             0 (length (all_node_states st)) (cluster_config st) of
        None \<Rightarrow> st' = emit [LogFailedToDetermine] st
      | Some (sz', seen') \<Rightarrow>
          st' = (st\<lparr>calculated_serving_sth := Some (map_subscript default_sth sbs sz'),
                     update_required := m \<or> update_required st,
                     calls := calls st @ [LogCanServe sz' seen', IsMaster m] @
                              (if m then [NotifyAll] else [])\<rparr>))"
    by (rule CalculateServingSTH_Inr)
  show thesis
  proof (cases "size_loop (rev nn)
             (int32_of (case calculated_serving_sth st of Some c \<Rightarrow> tree_size c | None \<Rightarrow> 0))
             0 (length (all_node_states st)) (cluster_config st)")
    case None
    with c assms(2) show ?thesis by (simp add: emit_def)
  next
    case (Some p)
    obtain sz' seen' where p: "p = (sz', seen')" by (cases p)
    with c Some assms(2) have "sz' = sz" "seen' = seen" by simp_all
    with a b c Some p show ?thesis by (intro that) simp_all
  qed
qed


lemma peers_at_least_node_sths:
  "peers_at_least nodes s = length (filter (\<lambda>sth. s \<le> tree_size sth) (node_sths nodes))"
  by (induction nodes) (auto simp: peers_at_least_def node_sths_Cons split: option.splits)

lemma peers_at_least_antimono: "s' \<le> s \<Longrightarrow> peers_at_least nodes s \<le> peers_at_least nodes s'"
  by (induction nodes) (auto simp: peers_at_least_def split: option.splits)

lemma calculation_counts:
  assumes loop1: "node_loop nodes [] [] = Inr (sbs, nn)"
    and loop2: "size_loop (rev nn) c 0 t cfg = Some (sz, seen)"
  shows "seen = int (peers_at_least nodes sz) \<and>
         minimum_serving_fraction cfg \<le> double_div seen t \<and>
         minimum_serving_nodes cfg \<le> seen \<and> 0 \<le> sz \<and> c \<le> sz \<and>
         sorted_wrt (>) (map fst (rev nn))"
proof -
  let ?zs = "map tree_size (node_sths nodes)"
  from node_loop_counts [OF loop1] have
    sorted: "sorted_wrt (<) (map fst nn)" and
    count: "\<And>k. map_subscript 0 nn k =
                 int (length (filter (\<lambda>sth. tree_size sth = k) (node_sths nodes)))" and
    keys: "fst ` set nn = tree_size ` set (node_sths nodes)" and
    nonneg: "\<forall>sth \<in> set (node_sths nodes). 0 \<le> tree_size sth"
    by simp_all
  have desc: "sorted_wrt (>) (map fst (rev nn))"
    using sorted by (simp add: rev_map [symmetric] sorted_wrt_rev)
  have "distinct (map fst nn)"
    using sorted by (simp add: strict_sorted_iff)
  then have entry: "\<And>k n. (k, n) \<in> set nn \<Longrightarrow> map_subscript 0 nn k = n"
    by (simp add: map_subscript_def)
  have counts: "\<forall>d \<in> set (rev nn). snd d = int (length (filter (\<lambda>z. z = fst d) ?zs))"
  proof
    fix d assume "d \<in> set (rev nn)"
    then have "(fst d, snd d) \<in> set nn" by simp
    then have "map_subscript 0 nn (fst d) = snd d" by (rule entry)
    with count [of "fst d"] show "snd d = int (length (filter (\<lambda>z. z = fst d) ?zs))"
      by (simp add: filter_map comp_def)
  qed
  have cover: "\<forall>z \<in> set ?zs. z \<in> fst ` set (rev nn) \<or> (\<forall>k \<in> fst ` set (rev nn). k < z)"
    using keys by simp
  have "filter (\<lambda>z. \<forall>k \<in> fst ` set (rev nn). k < z) ?zs = []"
    using keys by (auto simp: filter_empty_conv)
  then have start: "0 = int (length (filter (\<lambda>z. \<forall>k \<in> fst ` set (rev nn). k < z) ?zs))"
    by simp
  from size_loop_sound [OF loop2 desc counts cover start]
  have "seen = int (length (filter (\<lambda>z. sz \<le> z) ?zs))"
    and "minimum_serving_fraction cfg \<le> double_div seen t"
    and "minimum_serving_nodes cfg \<le> seen"
    by blast+
  moreover have "length (filter (\<lambda>z. sz \<le> z) ?zs) = peers_at_least nodes sz"
    by (simp add: peers_at_least_node_sths filter_map comp_def)
  moreover from size_loop_key [OF loop2] keys nonneg have "0 \<le> sz" "c \<le> sz"
    by auto
  ultimately show ?thesis using desc by simp
qed

lemma node_loop_newest:
  "node_loop nodes sbs nn = Inr (sbs', nn') \<Longrightarrow>
   timestamp (map_subscript default_sth sbs k) \<le> timestamp (map_subscript default_sth sbs' k) \<and>
   (\<forall>sth \<in> set (node_sths nodes).
      tree_size sth = k \<longrightarrow> timestamp sth \<le> timestamp (map_subscript default_sth sbs' k))"
proof (induction nodes arbitrary: sbs nn)
  case Nil
  then show ?case by simp
next
  case (Cons node rest)
  show ?case
  proof (cases "newest_sth (snd node)")
    case None
    with Cons.prems have "node_loop rest sbs nn = Inr (sbs', nn')" by simp
    from Cons.IH [OF this] None show ?thesis
      by (auto simp: node_sths_Cons)
  next
    case (Some sth)
    let ?cur = "map_subscript default_sth sbs (tree_size sth)"
    let ?s = "map_assign (tree_size sth) (if timestamp sth > timestamp ?cur then sth else ?cur) sbs"
    from Cons.prems(1) Some obtain n where run: "node_loop rest ?s n = Inr (sbs', nn')"
      by (simp add: Let_def split: if_splits)
    from Cons.IH [OF run] Some show ?thesis
      by (auto simp: node_sths_Cons map_subscript_map_assign split: if_splits)
  qed
qed

text \<open>
  The entry of a size at which some peer carries a timestamp other than 0 is a tree head
  of a peer at that size, and no peer at that size has a greater timestamp.
\<close>

lemma node_loop_best:
  assumes loop1: "node_loop nodes [] nn = Inr (sbs, nn')"
    and some: "sth \<in> set (node_sths nodes)" "tree_size sth = k" "0 < timestamp sth"
  shows "map_subscript default_sth sbs k \<in> set (node_sths nodes) \<and>
         tree_size (map_subscript default_sth sbs k) = k \<and>
         (\<forall>sth' \<in> set (node_sths nodes).
            tree_size sth' = k \<longrightarrow> timestamp sth' \<le> timestamp (map_subscript default_sth sbs k))"
proof -
  from node_loop_newest [OF loop1, of k] have
    newest: "\<forall>sth' \<in> set (node_sths nodes).
      tree_size sth' = k \<longrightarrow> timestamp sth' \<le> timestamp (map_subscript default_sth sbs k)"
    by simp
  with some have "0 < timestamp (map_subscript default_sth sbs k)" by force
  then have "map_subscript default_sth sbs k \<noteq> default_sth"
    by (auto simp: default_sth_def)
  with node_loop_sths [OF loop1, of k] newest show ?thesis by simp
qed

lemma int32_of_id: "0 \<le> x \<Longrightarrow> x < 2 ^ 31 \<Longrightarrow> int32_of x = x"
  by (simp add: int32_of_def)

subsection \<open>The scenarios, evaluated\<close>

lemma S1_run: "run init S1_events = Inr S1_served"
  by (simp add: scenario_defs handler_defs)

lemma S1_calculation: "CalculateServingSTH S1_state True = Inr S1_served"
  by (simp add: scenario_defs handler_defs)

lemma S5_publication: "ClusterServingSTHUpdater S1_served True = Inr S5_published"
  by (simp add: scenario_defs handler_defs)

lemma S5_calculation: "CalculateServingSTH S5_published True = Inr S5_again"
  by (simp add: scenario_defs handler_defs)

lemma first_batch_calculation: "CalculateServingSTH first_batch_state False = Inr first_batch_served"
  by (simp add: scenario_defs handler_defs)

subsection \<open>Monotonicity of the calculated size\<close>

text \<open>
  C1. Across any sequence of watch events and local mutations the tree size of the
  calculated serving tree head never decreases. The calculation does not keep this: the
  run of S1 calculates the tree head of size 10; when the two peers at size 10 then
  announce tree heads of size 12 with timestamp 0, the calculation returns and assigns
  the default-constructed tree head, whose tree size is 0.
\<close>

theorem calculated_size_regresses:
  "run init S1_events = Inr S1_served \<and>
   map_option tree_size (calculated_serving_sth S1_served) = Some 10 \<and>
   \<not> isl (step S1_served zero_timestamp_batch) \<and>
   map_option tree_size (calculated_serving_sth (final (step S1_served zero_timestamp_batch))) =
     Some 0"
  by (simp add: scenario_defs handler_defs final_def)

text \<open>
  The narrowing of the current tree size to 32 bits regresses as well, with timestamps
  that are not 0: from a calculated tree head of size \<open>2 ^ 32\<close> the lower bound of the
  second loop is 0, and the size 3 of a new peer is served.
\<close>

lemma calculated_size_regresses_wide:
  "map_option tree_size (calculated_serving_sth (final (run init wide_events))) =
     Some 4294967296 \<and>
   \<not> isl (run init (wide_events @ [narrow_batch])) \<and>
   map_option tree_size (calculated_serving_sth (final (run init (wide_events @ [narrow_batch])))) =
     Some 3"
  by (simp add: scenario_defs handler_defs final_def)

text \<open>
  These two are the only ways down: a calculation that returns, from a calculated tree
  head whose tree size fits in 32 bits, over peers whose tree heads all carry a timestamp
  other than 0, leaves a calculated tree head that is not smaller.
\<close>

lemma calculated_size_monotone_apart_from_slips:
  assumes calc: "CalculateServingSTH st is_master = Inr st'"
    and prev: "calculated_serving_sth st = Some c" "0 \<le> tree_size c" "tree_size c < 2 ^ 31"
    and stamped: "\<forall>sth \<in> set (node_sths (all_node_states st)). 0 < timestamp sth"
  shows "\<exists>c'. calculated_serving_sth st' = Some c' \<and> tree_size c \<le> tree_size c'"
proof -
  let ?floor = "int32_of (case calculated_serving_sth st of Some c \<Rightarrow> tree_size c | None \<Rightarrow> 0)"
  from prev have floor: "?floor = tree_size c" by (simp add: int32_of_id)
  from calc obtain sbs nn where
    loop1: "node_loop (all_node_states st) [] [] = Inr (sbs, nn)" and
    out: "(case size_loop (rev nn) ?floor 0 (length (all_node_states st)) (cluster_config st) of
        None \<Rightarrow> st' = emit [LogFailedToDetermine] st
      | Some (sz, seen) \<Rightarrow>
          st' = (st\<lparr>calculated_serving_sth := Some (map_subscript default_sth sbs sz),
                     update_required := is_master \<or> update_required st,
                     calls := calls st @ [LogCanServe sz seen, IsMaster is_master] @
                              (if is_master then [NotifyAll] else [])\<rparr>))"
    by (rule CalculateServingSTH_Inr)
  show ?thesis
  proof (cases "size_loop (rev nn) ?floor 0 (length (all_node_states st)) (cluster_config st)")
    case None
    with out prev show ?thesis by (simp add: emit_def)
  next
    case (Some p)
    obtain sz seen where p: "p = (sz, seen)" by (cases p)
    from Some p have loop2: "size_loop (rev nn) ?floor 0 (length (all_node_states st))
        (cluster_config st) = Some (sz, seen)" by simp
    from size_loop_key [OF loop2] have key: "sz \<in> fst ` set nn" and ge: "?floor \<le> sz"
      by simp_all
    from node_loop_counts [OF loop1] key
    obtain sth where "sth \<in> set (node_sths (all_node_states st))" "tree_size sth = sz"
      by auto
    with stamped node_loop_best [OF loop1, of sth sz]
    have "tree_size (map_subscript default_sth sbs sz) = sz" by simp
    with out Some p ge floor show ?thesis by simp
  qed
qed

subsection \<open>Quorum soundness\<close>

lemma CalculateServingSTH_Inl: "CalculateServingSTH st m = Inl (a, st') \<Longrightarrow> st' = st"
  by (auto simp: CalculateServingSTH_def Let_def
      split: sum.splits option.splits if_splits prod.splits)

text \<open>
  C2. Whenever the calculation assigns the calculated serving tree head at a size \<open>s\<close>,
  the number of peers whose newest tree head has a tree size of at least \<open>s\<close> is at least
  \<^verbatim>\<open>minimum_serving_nodes\<close>, and that number divided by the number of peer states is at
  least \<^verbatim>\<open>minimum_serving_fraction\<close>. The quotient the code compares is a double: with a
  threshold of the double nearest to 0.1 and one of ten peers at size 5, the quotient
  rounds to that very double and the calculation assigns, while one tenth is below the
  threshold.
\<close>

theorem exact_fraction_below_threshold:
  "run init tenth_events = Inr tenth_served \<and>
   calls tenth_served = [LogFailedToDetermine, LogCanServe 5 1, IsMaster False] \<and>
   calculated_serving_sth tenth_served = Some (sth_of 100 5 ''a'') \<and>
   peers_at_least (all_node_states tenth_served) 5 = 1 \<and>
   length (all_node_states tenth_served) = 10 \<and>
   1 \<le> minimum_serving_nodes (cluster_config tenth_served) \<and>
   real (peers_at_least (all_node_states tenth_served) 5) /
     real (length (all_node_states tenth_served)) <
   minimum_serving_fraction (cluster_config tenth_served)"
  by (simp add: scenario_defs handler_defs peers_at_least_def)

text \<open>
  C2, amended. A calculation that aborts assigns nothing. A calculation that returns has
  either logged the warning and left the state as it was, or logged that it can serve at a
  size \<open>s\<close> and assigned a tree head of tree size at most \<open>s\<close>; then the number of
  peers whose newest tree head has a tree size of at least \<open>s\<close> is at least
  \<^verbatim>\<open>minimum_serving_nodes\<close>, and that number divided by the number of peer states, rounded
  to the nearest double as the code computes it, is at least
  \<^verbatim>\<open>minimum_serving_fraction\<close>; the exact quotient, enlarged by one part in \<open>2 ^ 53\<close>, is
  at least the threshold too. The number of peers and the exact quotient meet the same
  bounds at the tree size of the tree head that was assigned.
\<close>

theorem quorum_soundness_in_doubles:
  "case CalculateServingSTH st is_master of
     Inl (a, st') \<Rightarrow> st' = st
   | Inr st' \<Rightarrow>
       st' = emit [LogFailedToDetermine] st \<or>
       (\<exists>s c.
          st' = st\<lparr>calculated_serving_sth := Some c,
                    update_required := is_master \<or> update_required st,
                    calls := calls st @
                      [LogCanServe s (int (peers_at_least (all_node_states st) s)),
                       IsMaster is_master] @
                      (if is_master then [NotifyAll] else [])\<rparr> \<and>
          tree_size c \<le> s \<and>
          minimum_serving_nodes (cluster_config st) \<le>
            int (peers_at_least (all_node_states st) s) \<and>
          minimum_serving_fraction (cluster_config st) \<le>
            double_div (int (peers_at_least (all_node_states st) s))
              (length (all_node_states st)) \<and>
          minimum_serving_fraction (cluster_config st) \<le>
            (1 + 1 / 2 ^ 53) *
            (real (peers_at_least (all_node_states st) s) / real (length (all_node_states st))) \<and>
          minimum_serving_nodes (cluster_config st) \<le>
            int (peers_at_least (all_node_states st) (tree_size c)) \<and>
          minimum_serving_fraction (cluster_config st) \<le>
            (1 + 1 / 2 ^ 53) *
            (real (peers_at_least (all_node_states st) (tree_size c)) /
             real (length (all_node_states st))))"
proof (cases "CalculateServingSTH st is_master")
  case (Inl e)
  obtain a st' where "e = (a, st')" by (cases e)
  with Inl CalculateServingSTH_Inl [of st is_master a st'] show ?thesis by simp
next
  case (Inr st')
  let ?nodes = "all_node_states st" and ?cfg = "cluster_config st"
  let ?floor = "int32_of (case calculated_serving_sth st of Some c \<Rightarrow> tree_size c | None \<Rightarrow> 0)"
  from Inr obtain sbs nn where
    loop1: "node_loop ?nodes [] [] = Inr (sbs, nn)" and
    out: "(case size_loop (rev nn) ?floor 0 (length ?nodes) ?cfg of
        None \<Rightarrow> st' = emit [LogFailedToDetermine] st
      | Some (sz, seen) \<Rightarrow>
          st' = (st\<lparr>calculated_serving_sth := Some (map_subscript default_sth sbs sz),
                     update_required := is_master \<or> update_required st,
                     calls := calls st @ [LogCanServe sz seen, IsMaster is_master] @
                              (if is_master then [NotifyAll] else [])\<rparr>))"
    by (rule CalculateServingSTH_Inr)
  show ?thesis
  proof (cases "size_loop (rev nn) ?floor 0 (length ?nodes) ?cfg")
    case None
    with out Inr show ?thesis by simp
  next
    case (Some p)
    obtain s seen where p: "p = (s, seen)" by (cases p)
    from Some p have loop2: "size_loop (rev nn) ?floor 0 (length ?nodes) ?cfg = Some (s, seen)"
      by simp
    let ?c = "map_subscript default_sth sbs s"
    let ?n = "peers_at_least ?nodes s" and ?n' = "peers_at_least ?nodes (tree_size ?c)"
    let ?K = "1 + 1 / 2 ^ 53 :: real"
    from calculation_counts [OF loop1 loop2] have
      seen: "seen = int ?n" and
      frac: "minimum_serving_fraction ?cfg \<le> double_div seen (length ?nodes)" and
      num: "minimum_serving_nodes ?cfg \<le> seen" and
      nonneg: "0 \<le> s"
      by blast+
    from out Some p seen have st': "st' = st\<lparr>calculated_serving_sth := Some ?c,
        update_required := is_master \<or> update_required st,
        calls := calls st @ [LogCanServe s (int ?n), IsMaster is_master] @
                 (if is_master then [NotifyAll] else [])\<rparr>"
      by simp
    from node_loop_sths [OF loop1, of s] nonneg have le: "tree_size ?c \<le> s"
      by (auto simp: default_sth_def)
    then have more: "?n \<le> ?n'"
      by (rule peers_at_least_antimono)
    from size_loop_key [OF loop2] node_loop_counts [OF loop1]
    have "s \<in> tree_size ` set (node_sths ?nodes)" by simp
    then have "?nodes \<noteq> []" by auto
    then have len: "0 < length ?nodes" by simp
    from double_div_upper [OF _ len, of "int ?n"]
    have "double_div (int ?n) (length ?nodes) \<le> ?K * (real ?n / real (length ?nodes))"
      by simp
    with frac seen have exact: "minimum_serving_fraction ?cfg \<le>
        ?K * (real ?n / real (length ?nodes))"
      by simp
    from more have "real ?n / real (length ?nodes) \<le> real ?n' / real (length ?nodes)"
      by (simp add: divide_right_mono)
    then have "?K * (real ?n / real (length ?nodes)) \<le> ?K * (real ?n' / real (length ?nodes))"
      by (intro mult_left_mono) simp_all
    with exact have exact': "minimum_serving_fraction ?cfg \<le>
        ?K * (real ?n' / real (length ?nodes))"
      by simp
    from num seen more have num': "minimum_serving_nodes ?cfg \<le> int ?n'" by simp
    from st' le num frac seen exact num' exact'
    have "\<exists>s c.
          st' = st\<lparr>calculated_serving_sth := Some c,
                    update_required := is_master \<or> update_required st,
                    calls := calls st @
                      [LogCanServe s (int (peers_at_least ?nodes s)), IsMaster is_master] @
                      (if is_master then [NotifyAll] else [])\<rparr> \<and>
          tree_size c \<le> s \<and>
          minimum_serving_nodes ?cfg \<le> int (peers_at_least ?nodes s) \<and>
          minimum_serving_fraction ?cfg \<le>
            double_div (int (peers_at_least ?nodes s)) (length ?nodes) \<and>
          minimum_serving_fraction ?cfg \<le>
            ?K * (real (peers_at_least ?nodes s) / real (length ?nodes)) \<and>
          minimum_serving_nodes ?cfg \<le> int (peers_at_least ?nodes (tree_size c)) \<and>
          minimum_serving_fraction ?cfg \<le>
            ?K * (real (peers_at_least ?nodes (tree_size c)) / real (length ?nodes))"
      by (intro exI [of _ s] exI [of _ ?c]) simp
    with Inr show ?thesis by simp
  qed
qed

text \<open>In S1 the calculation assigns at size 10, where two of the four peers stand.\<close>

theorem quorum_soundness_in_doubles_witness:
  "CalculateServingSTH S1_state True = Inr S1_served \<and>
   S1_served \<noteq> emit [LogFailedToDetermine] S1_state \<and>
   (\<exists>s c.
      S1_served = S1_state\<lparr>calculated_serving_sth := Some c,
                    update_required := True \<or> update_required S1_state,
                    calls := calls S1_state @
                      [LogCanServe s (int (peers_at_least (all_node_states S1_state) s)),
                       IsMaster True] @
                      (if True then [NotifyAll] else [])\<rparr> \<and>
      tree_size c \<le> s \<and>
      minimum_serving_nodes (cluster_config S1_state) \<le>
        int (peers_at_least (all_node_states S1_state) s) \<and>
      minimum_serving_fraction (cluster_config S1_state) \<le>
        double_div (int (peers_at_least (all_node_states S1_state) s))
          (length (all_node_states S1_state)) \<and>
      minimum_serving_fraction (cluster_config S1_state) \<le>
        (1 + 1 / 2 ^ 53) *
        (real (peers_at_least (all_node_states S1_state) s) /
         real (length (all_node_states S1_state))) \<and>
      minimum_serving_nodes (cluster_config S1_state) \<le>
        int (peers_at_least (all_node_states S1_state) (tree_size c)) \<and>
      minimum_serving_fraction (cluster_config S1_state) \<le>
        (1 + 1 / 2 ^ 53) *
        (real (peers_at_least (all_node_states S1_state) (tree_size c)) /
         real (length (all_node_states S1_state)))) \<and>
   peers_at_least (all_node_states S1_state) 10 = 2 \<and> length (all_node_states S1_state) = 4"
proof -
  have differs: "S1_served \<noteq> emit [LogFailedToDetermine] S1_state"
    by (simp add: scenario_defs emit_def)
  have counts: "peers_at_least (all_node_states S1_state) 10 = 2 \<and>
      length (all_node_states S1_state) = 4"
    by (simp add: scenario_defs peers_at_least_def)
  from quorum_soundness_in_doubles [of S1_state True] S1_calculation differs counts
  show ?thesis by simp
qed

subsection \<open>A second calculation\<close>

text \<open>
  C3. A second calculation on a master, with the peer states, the configuration and the
  calculated tree head unchanged since a run that produced and published that tree head,
  does not set \<^verbatim>\<open>update_required_\<close> again and does not wake the publisher. The code does
  both: after the publisher has written the tree head of S1 and cleared the flag, the
  same calculation assigns the same tree head, sets the flag and notifies.
\<close>

theorem second_calculation_signals:
  "run init (S1_events @ [EvPublisher True]) = Inr S5_published \<and>
   update_required S5_published = False \<and>
   CalculateServingSTH S5_published True = Inr S5_again \<and>
   all_node_states S5_again = all_node_states S5_published \<and>
   cluster_config S5_again = cluster_config S5_published \<and>
   calculated_serving_sth S5_again = calculated_serving_sth S5_published \<and>
   update_required S5_again = True \<and>
   calls S5_again = calls S5_published @ [LogCanServe 10 2, IsMaster True, NotifyAll]"
  by (simp add: scenario_defs handler_defs)

text \<open>
  C3, amended. When a calculation has assigned a tree head at size \<open>s\<close>, a second
  calculation on a master that returns, with the peer states, the configuration and the
  calculated tree head unchanged, assigns the same tree head at the same size, sets
  \<^verbatim>\<open>update_required_\<close> and notifies the publisher.
\<close>

theorem recalculation_signals_again:
  assumes first: "CalculateServingSTH st m = Inr st1"
    and served: "calls st1 = calls st @ LogCanServe s seen # cs"
    and same: "all_node_states st2 = all_node_states st1"
      "cluster_config st2 = cluster_config st1"
      "calculated_serving_sth st2 = calculated_serving_sth st1"
    and second: "CalculateServingSTH st2 True = Inr st3"
  shows "update_required st3 \<and>
         calls st3 = calls st2 @ [LogCanServe s seen, IsMaster True, NotifyAll] \<and>
         calculated_serving_sth st3 = calculated_serving_sth st2"
proof -
  let ?nodes = "all_node_states st" and ?cfg = "cluster_config st"
  from first served obtain sbs nn where
    loop1: "node_loop ?nodes [] [] = Inr (sbs, nn)" and
    loop2: "size_loop (rev nn)
       (int32_of (case calculated_serving_sth st of Some c \<Rightarrow> tree_size c | None \<Rightarrow> 0))
       0 (length ?nodes) ?cfg = Some (s, seen)" and
    st1: "st1 = (st\<lparr>calculated_serving_sth := Some (map_subscript default_sth sbs s),
               update_required := m \<or> update_required st,
               calls := calls st @ [LogCanServe s seen, IsMaster m] @
                        (if m then [NotifyAll] else [])\<rparr>)"
    by (rule CalculateServingSTH_CanServe)
  let ?c = "map_subscript default_sth sbs s"
  from st1 same have nodes2: "all_node_states st2 = ?nodes" and cfg2: "cluster_config st2 = ?cfg"
    and calc2: "calculated_serving_sth st2 = Some ?c"
    by simp_all
  from calculation_counts [OF loop1 loop2] have nonneg: "0 \<le> s"
    and desc: "sorted_wrt (>) (map fst (rev nn))"
    by blast+
  from node_loop_sths [OF loop1, of s] have "tree_size ?c = 0 \<or> tree_size ?c = s"
    by (auto simp: default_sth_def)
  with nonneg int32_of_le [of s] have floor: "int32_of (tree_size ?c) \<le> s"
    by (auto simp: int32_of_def)
  from size_loop_floor [OF loop2 desc floor]
  have again: "size_loop (rev nn) (int32_of (tree_size ?c)) 0 (length ?nodes) ?cfg = Some (s, seen)" .
  from second have "0 \<le> int32_of (tree_size ?c)"
    by (auto simp: CalculateServingSTH_def calc2 nodes2 loop1 Let_def split: if_splits)
  with second again show ?thesis
    by (auto simp: CalculateServingSTH_def calc2 nodes2 cfg2 loop1 emit_def Let_def)
qed

theorem recalculation_signals_again_witness:
  "CalculateServingSTH S1_state True = Inr S1_served \<and>
   calls S1_served = calls S1_state @ LogCanServe 10 2 # [IsMaster True, NotifyAll] \<and>
   all_node_states S5_published = all_node_states S1_served \<and>
   cluster_config S5_published = cluster_config S1_served \<and>
   calculated_serving_sth S5_published = calculated_serving_sth S1_served \<and>
   CalculateServingSTH S5_published True = Inr S5_again \<and>
   update_required S5_again \<and>
   calls S5_again = calls S5_published @ [LogCanServe 10 2, IsMaster True, NotifyAll] \<and>
   calculated_serving_sth S5_again = calculated_serving_sth S5_published"
proof -
  have h2: "calls S1_served = calls S1_state @ LogCanServe 10 2 # [IsMaster True, NotifyAll]"
    by (simp add: scenario_defs)
  have h3: "all_node_states S5_published = all_node_states S1_served"
    and h4: "cluster_config S5_published = cluster_config S1_served"
    and h5: "calculated_serving_sth S5_published = calculated_serving_sth S1_served"
    by (simp_all add: scenario_defs)
  from recalculation_signals_again [OF S1_calculation h2 h3 h4 h5 S5_calculation]
    S1_calculation h2 h3 h4 h5 S5_calculation
  show ?thesis by blast
qed

subsection \<open>Election participation\<close>

text \<open>
  C4. \<^verbatim>\<open>DetermineElectionParticipation\<close> stops the election when there is no actual
  serving tree head, stops it when the tree size of the actual serving tree head is
  greater than the local contiguous tree size, and starts it otherwise: the node takes
  part in the election exactly when the actual serving tree head is set and its tree size
  is at most the local contiguous tree size. Nothing else of the state changes.
\<close>

theorem election_participation:
  "DetermineElectionParticipation st =
     st\<lparr>calls := calls st @
        [if (case actual_serving_sth st of
               None \<Rightarrow> False
             | Some sth \<Rightarrow> tree_size sth \<le> contiguous_tree_size (local_node_state st))
         then StartElection else StopElection]\<rparr>"
  by (simp add: DetermineElectionParticipation_def emit_def split: option.split)

text \<open>
  S4 shows both answers: the serving tree head of size 10 arrives at a node with 8
  contiguous entries, which leaves the election, and joins it once it has 10.
\<close>

lemma S4_election_leave_and_join:
  "calls (OnServingSthUpdated S4_state (present (sth_of 100 10 ''a''))) = [StopElection] \<and>
   map_option calls
     (case ContiguousTreeSizeUpdated (OnServingSthUpdated S4_state (present (sth_of 100 10 ''a''))) 10
      of Inl a \<Rightarrow> None | Inr st \<Rightarrow> Some st) =
   Some [StopElection, StartElection,
         SetClusterNodeState (default_node_state\<lparr>contiguous_tree_size := 10\<rparr>)]"
  by (simp add: scenario_defs handler_defs)

subsection \<open>The publisher\<close>

lemma guarded_from_weaken: "guarded_from ok cs \<Longrightarrow> guarded_from True cs"
  by (cases cs) (auto split: call.splits)

lemma guarded_from_append:
  "guarded_from ok xs \<Longrightarrow> guarded_from False ys \<Longrightarrow> guarded_from ok (xs @ ys)"
proof (induction xs arbitrary: ok)
  case Nil
  then show ?case by (cases ok) (auto dest: guarded_from_weaken)
next
  case (Cons x xs)
  then show ?case by simp
qed

lemma DetermineElectionParticipation_calls:
  "\<exists>new. calls (DetermineElectionParticipation st) = calls st @ new \<and>
         filter is_SetServingSTH new = []"
  by (simp add: DetermineElectionParticipation_def emit_def split: option.split)

lemma PushLocalNodeState_calls:
  "\<exists>new. calls (PushLocalNodeState st) = calls st @ new \<and> filter is_SetServingSTH new = []"
  by (simp add: PushLocalNodeState_def DetermineElectionParticipation_def emit_def Let_def
      split: option.split)

lemma CalculateServingSTH_calls:
  "\<exists>new. calls (final (CalculateServingSTH st m)) = calls st @ new \<and>
         filter is_SetServingSTH new = []"
  by (simp add: CalculateServingSTH_def final_def emit_def Let_def
      split: sum.split option.split prod.split)

lemma no_write_guarded: "filter is_SetServingSTH cs = [] \<Longrightarrow> guarded_from ok cs"
  by (induction cs arbitrary: ok) (auto split: call.splits if_splits)

lemma NewTreeHead_calls:
  "\<exists>new. calls (final (NewTreeHead st sth)) = calls st @ new \<and>
         filter is_SetServingSTH new = []"
  using PushLocalNodeState_calls
    [of "st\<lparr>local_node_state := (local_node_state st)\<lparr>newest_sth := Some sth\<rparr>\<rparr>"]
  by (simp add: NewTreeHead_def final_def split: option.split)

lemma ContiguousTreeSizeUpdated_calls:
  "\<exists>new. calls (final (ContiguousTreeSizeUpdated st n)) = calls st @ new \<and>
         filter is_SetServingSTH new = []"
  using PushLocalNodeState_calls
    [of "st\<lparr>local_node_state := (local_node_state st)\<lparr>contiguous_tree_size := n\<rparr>\<rparr>"]
  by (simp add: ContiguousTreeSizeUpdated_def final_def)

lemma SetNodeHostPort_calls:
  "\<exists>new. calls (SetNodeHostPort st host port) = calls st @ new \<and>
         filter is_SetServingSTH new = []"
  using PushLocalNodeState_calls
    [of "st\<lparr>local_node_state := (local_node_state st)\<lparr>hostname := host, log_port := port\<rparr>\<rparr>"]
  by (simp add: SetNodeHostPort_def)

lemma OnClusterStateUpdated_calls:
  "\<exists>new. calls (final (OnClusterStateUpdated st updates m)) = calls st @ new \<and>
         filter is_SetServingSTH new = []"
proof (cases "update_loop updates (all_node_states st)")
  case (Pair nodes ok)
  with CalculateServingSTH_calls [of "st\<lparr>all_node_states := nodes\<rparr>" m]
  show ?thesis
    by (cases ok) (simp_all add: OnClusterStateUpdated_def final_def)
qed

lemma OnClusterConfigUpdated_calls:
  "\<exists>new. calls (final (OnClusterConfigUpdated st u m)) = calls st @ new \<and>
         filter is_SetServingSTH new = []"
proof (cases "exists u")
  case True
  with CalculateServingSTH_calls [of "st\<lparr>cluster_config := entry u\<rparr>" m]
  show ?thesis by (simp add: OnClusterConfigUpdated_def)
next
  case False
  then show ?thesis by (simp add: OnClusterConfigUpdated_def final_def)
qed

lemma OnServingSthUpdated_calls:
  "\<exists>new. calls (OnServingSthUpdated st u) = calls st @ new \<and>
         filter is_SetServingSTH new = []"
  using DetermineElectionParticipation_calls [of "st\<lparr>actual_serving_sth := None\<rparr>"]
    DetermineElectionParticipation_calls [of "st\<lparr>actual_serving_sth := Some (entry u)\<rparr>"]
  by (simp add: OnServingSthUpdated_def)

text \<open>Only the publisher writes, once in a pass, and right after the election's answer.\<close>

lemma step_calls:
  "\<exists>new. calls (final (step st e)) = calls st @ new \<and> guarded new \<and>
         length (filter is_SetServingSTH new) \<le> (if master_pass e then 1 else 0)"
proof (cases e)
  case (EvNewTreeHead sth)
  with NewTreeHead_calls [of st sth] show ?thesis
    by (auto simp: guarded_def no_write_guarded)
next
  case (EvContiguousTreeSizeUpdated n)
  with ContiguousTreeSizeUpdated_calls [of st n] show ?thesis
    by (auto simp: guarded_def no_write_guarded)
next
  case (EvSetNodeHostPort host port)
  with SetNodeHostPort_calls [of st host port] show ?thesis
    by (auto simp: guarded_def no_write_guarded final_def)
next
  case (EvClusterStateUpdated updates m)
  with OnClusterStateUpdated_calls [of st updates m] show ?thesis
    by (auto simp: guarded_def no_write_guarded)
next
  case (EvClusterConfigUpdated u m)
  with OnClusterConfigUpdated_calls [of st u m] show ?thesis
    by (auto simp: guarded_def no_write_guarded)
next
  case (EvServingSthUpdated u)
  with OnServingSthUpdated_calls [of st u] show ?thesis
    by (auto simp: guarded_def no_write_guarded final_def)
next
  case (EvPublisher m)
  then show ?thesis
    by (simp add: ClusterServingSTHUpdater_def final_def emit_def guarded_def Let_def
        split: option.split)
qed

lemma final_run_Cons:
  "final (run st (e # es)) =
     (case step st e of Inl a \<Rightarrow> final (step st e) | Inr st' \<Rightarrow> final (run st' es))"
  by (simp split: sum.split)

lemma run_calls:
  "guarded (calls st) \<Longrightarrow>
   guarded (calls (final (run st evs))) \<and>
   length (filter is_SetServingSTH (calls (final (run st evs)))) \<le>
     length (filter is_SetServingSTH (calls st)) + length (filter master_pass evs)"
proof (induction evs arbitrary: st)
  case Nil
  then show ?case by (simp add: final_def)
next
  case (Cons e es)
  from step_calls [of st e] obtain new where
    new: "calls (final (step st e)) = calls st @ new" "guarded new"
      "length (filter is_SetServingSTH new) \<le> (if master_pass e then 1 else 0)"
    by blast
  from new(1,2) Cons.prems have g: "guarded (calls (final (step st e)))"
    by (simp add: guarded_def guarded_from_append)
  from new(1,3) have n: "length (filter is_SetServingSTH (calls (final (step st e)))) \<le>
      length (filter is_SetServingSTH (calls st)) + (if master_pass e then 1 else 0)"
    by simp
  show ?case
  proof (cases "step st e")
    case (Inl a)
    with g n show ?thesis by (auto simp: final_run_Cons)
  next
    case (Inr st')
    then have st': "final (step st e) = st'" by (simp add: final_def)
    from Cons.IH [of st'] g st' have
      "guarded (calls (final (run st' es)))"
      "length (filter is_SetServingSTH (calls (final (run st' es)))) \<le>
         length (filter is_SetServingSTH (calls st')) + length (filter master_pass es)"
      by simp_all
    with n st' Inr show ?thesis by (auto simp: final_run_Cons)
  qed
qed

text \<open>
  C5. In every run of the controller from its initial state, each call of
  \<^verbatim>\<open>SetServingSTH\<close> comes right after a call of \<^verbatim>\<open>IsMaster\<close> that answered true, and
  there are at most as many such calls as passes of the publisher in which the election
  answered true: no callback and no local mutator writes the serving tree head.
\<close>

theorem publisher_gating:
  "guarded (calls (final (run init evs))) \<and>
   length (filter is_SetServingSTH (calls (final (run init evs)))) \<le>
     length (filter master_pass evs)"
  using run_calls [of init evs] by (simp add: init_def guarded_def)

text \<open>The bound is met: in S5 the one pass of the publisher on a master writes once.\<close>

lemma S5_publisher_writes:
  "final (run init (S1_events @ [EvPublisher True])) = S5_published \<and>
   filter is_SetServingSTH (calls S5_published) = [SetServingSTH (sth_of 110 10 ''b'')] \<and>
   filter is_SetServingSTH (calls (final (run init (S1_events @ [EvPublisher False])))) = []"
  by (simp add: scenario_defs handler_defs final_def)

subsection \<open>The scenarios S1 and S3\<close>

text \<open>
  C6. With thresholds of two nodes and one half and the peers A (size 10, timestamp 100),
  B (size 10, timestamp 110), C (size 7, timestamp 90) and D (no tree head), the
  calculation, starting without a calculated tree head, assigns the tree head of B: tree
  size 10, timestamp 110.
\<close>

theorem S1_quorum_just_met:
  "CalculateServingSTH
     (st\<lparr>all_node_states := S1_peers, cluster_config := S1_config,
         calculated_serving_sth := None\<rparr>) is_master =
   Inr (st\<lparr>all_node_states := S1_peers, cluster_config := S1_config,
           calculated_serving_sth := Some (sth_of 110 10 ''b''),
           update_required := is_master \<or> update_required st,
           calls := calls st @ [LogCanServe 10 2, IsMaster is_master] @
                    (if is_master then [NotifyAll] else [])\<rparr>)"
  by (simp add: scenario_defs handler_defs)

text \<open>
  C7. From a calculated tree head of size 10 and timestamp 110, with the same thresholds
  and the peers A, C and D left, the calculation leaves the calculated tree head as it is
  and does not set \<^verbatim>\<open>update_required_\<close>: it only logs the warning.
\<close>

theorem S3_monotonicity_guard:
  "CalculateServingSTH
     (st\<lparr>all_node_states := S3_peers, cluster_config := S1_config,
         calculated_serving_sth := Some (sth_of 110 10 h)\<rparr>) is_master =
   Inr (st\<lparr>all_node_states := S3_peers, cluster_config := S1_config,
           calculated_serving_sth := Some (sth_of 110 10 h),
           calls := calls st @ [LogFailedToDetermine]\<rparr>)"
  by (simp add: scenario_defs handler_defs)

subsection \<open>The timestamp of a new local tree head\<close>

text \<open>
  C8. \<^verbatim>\<open>NewTreeHead\<close> requires the timestamp of the new tree head to be at least the
  timestamp of the previous newest tree head, when there is one. A strictly smaller
  timestamp aborts, and the state at the abort is the state before the call: nothing is
  recorded, the election is not asked and nothing is sent to the store. Otherwise the tree
  head is recorded, the election participation is determined and the node state is sent.
\<close>

theorem NewTreeHead_timestamp_contract:
  "NewTreeHead st sth =
     (if (case newest_sth (local_node_state st) of
            None \<Rightarrow> False
          | Some prev \<Rightarrow> timestamp sth < timestamp prev)
      then Inl (CheckTimestamp, st)
      else Inr (st\<lparr>local_node_state := (local_node_state st)\<lparr>newest_sth := Some sth\<rparr>,
                   calls := calls st @
                     [if (case actual_serving_sth st of
                            None \<Rightarrow> False
                          | Some a \<Rightarrow> tree_size a \<le> contiguous_tree_size (local_node_state st))
                      then StartElection else StopElection,
                      SetClusterNodeState ((local_node_state st)\<lparr>newest_sth := Some sth\<rparr>)]\<rparr>))"
  by (simp add: NewTreeHead_def PushLocalNodeState_def DetermineElectionParticipation_def
      emit_def Let_def split: option.split)

text \<open>After a tree head of timestamp 100, one of timestamp 99 aborts and one of timestamp 100 is taken.\<close>

lemma NewTreeHead_examples:
  "NewTreeHead signed_state (sth_of 99 11 ''b'') = Inl (CheckTimestamp, signed_state) \<and>
   NewTreeHead signed_state (sth_of 100 11 ''b'') =
     Inr (signed_state\<lparr>local_node_state :=
                         default_node_state\<lparr>newest_sth := Some (sth_of 100 11 ''b'')\<rparr>,
                       calls := [StopElection,
                         SetClusterNodeState
                           (default_node_state\<lparr>newest_sth := Some (sth_of 100 11 ''b'')\<rparr>)]\<rparr>)"
  by (simp add: scenario_defs handler_defs)

subsection \<open>Tree heads with timestamp 0\<close>

text \<open>
  C9. When every peer whose newest tree head has the size \<open>s\<close> at which the calculation
  assigns carries timestamp 0 there, the calculation assigns the default-constructed tree
  head, of tree size 0: the entry that reading \<^verbatim>\<open>sth_by_size[s]\<close> inserted is replaced
  only by a tree head of a strictly greater timestamp.
\<close>

theorem default_sth_served:
  assumes "CalculateServingSTH st is_master = Inr st'"
    and "calls st' = calls st @ LogCanServe s seen # cs"
    and "\<forall>sth \<in> set (node_sths (all_node_states st)). tree_size sth = s \<longrightarrow> timestamp sth = 0"
  shows "calculated_serving_sth st' = Some default_sth"
proof -
  from assms(1,2) obtain sbs nn where
    loop1: "node_loop (all_node_states st) [] [] = Inr (sbs, nn)" and
    st': "st' = (st\<lparr>calculated_serving_sth := Some (map_subscript default_sth sbs s),
               update_required := is_master \<or> update_required st,
               calls := calls st @ [LogCanServe s seen, IsMaster is_master] @
                        (if is_master then [NotifyAll] else [])\<rparr>)"
    by (rule CalculateServingSTH_CanServe)
  from node_loop_sths [OF loop1, of s] assms(3)
  have "map_subscript default_sth sbs s = default_sth"
    by auto
  with st' show ?thesis by simp
qed

theorem default_sth_served_witness:
  "CalculateServingSTH first_batch_state False = Inr first_batch_served \<and>
   calls first_batch_served = calls first_batch_state @ LogCanServe 5 1 # [IsMaster False] \<and>
   node_sths (all_node_states first_batch_state) = [sth_of 0 5 ''a''] \<and>
   calculated_serving_sth first_batch_served = Some default_sth \<and>
   tree_size default_sth = 0 \<and> default_sth \<noteq> sth_of 0 5 ''a''"
proof -
  have h2: "calls first_batch_served = calls first_batch_state @ LogCanServe 5 1 # [IsMaster False]"
    by (simp add: scenario_defs)
  have sths: "node_sths (all_node_states first_batch_state) = [sth_of 0 5 ''a'']"
    by (simp add: scenario_defs node_sths_Cons)
  then have h3: "\<forall>sth \<in> set (node_sths (all_node_states first_batch_state)).
      tree_size sth = 5 \<longrightarrow> timestamp sth = 0"
    by (simp add: sth_of_def)
  have "tree_size default_sth = 0 \<and> default_sth \<noteq> sth_of 0 5 ''a''"
    by (simp add: default_sth_def sth_of_def)
  with default_sth_served [OF first_batch_calculation h2 h3] first_batch_calculation h2 sths
  show ?thesis by blast
qed

subsection \<open>Before the first configuration\<close>

text \<open>
  C10. Before any configuration has arrived the calculation runs with thresholds 0 and 0.0,
  so the first batch of peer states with a tree head sets the calculated serving tree head
  to the best tree head at the largest peer size. With one peer, whose tree head has size
  5 and timestamp 0, the calculation serves at size 5 and assigns the default-constructed
  tree head instead of the tree head of the peer.
\<close>

theorem first_batch_serves_default:
  "run init [first_batch] = Inr first_batch_served \<and>
   cluster_config first_batch_served = default_config \<and>
   node_sths (all_node_states first_batch_served) = [sth_of 0 5 ''a''] \<and>
   calls first_batch_served = [LogCanServe 5 1, IsMaster False] \<and>
   calculated_serving_sth first_batch_served = Some default_sth \<and>
   default_sth \<noteq> sth_of 0 5 ''a''"
  by (simp add: scenario_defs handler_defs node_sths_Cons)

text \<open>
  With the thresholds of a default-constructed configuration and no calculated tree head,
  a calculation that returns serves at the largest size among the peers, if any peer has
  a tree head; and when a peer at that size carries a timestamp other than 0, the tree
  head it assigns is one of a peer at that size with the greatest timestamp.
\<close>

lemma default_config_serves_largest:
  assumes none: "calculated_serving_sth st = None"
    and cfg: "cluster_config st = default_config"
    and some: "node_sths (all_node_states st) \<noteq> []"
    and calc: "CalculateServingSTH st is_master = Inr st'"
  shows "\<exists>sbs nn seen.
           node_loop (all_node_states st) [] [] = Inr (sbs, nn) \<and>
           st' = (st\<lparr>calculated_serving_sth :=
                        Some (map_subscript default_sth sbs
                                (Max (tree_size ` set (node_sths (all_node_states st))))),
                      update_required := is_master \<or> update_required st,
                      calls := calls st @
                        [LogCanServe (Max (tree_size ` set (node_sths (all_node_states st)))) seen,
                         IsMaster is_master] @
                        (if is_master then [NotifyAll] else [])\<rparr>)"
proof -
  let ?sizes = "tree_size ` set (node_sths (all_node_states st))"
  from none have floor:
    "int32_of (case calculated_serving_sth st of Some c \<Rightarrow> tree_size c | None \<Rightarrow> 0) = 0"
    by (simp add: int32_of_def)
  from calc obtain sbs nn where
    loop1: "node_loop (all_node_states st) [] [] = Inr (sbs, nn)" and
    out: "(case size_loop (rev nn) 0 0 (length (all_node_states st)) default_config of
        None \<Rightarrow> st' = emit [LogFailedToDetermine] st
      | Some (sz, seen) \<Rightarrow>
          st' = (st\<lparr>calculated_serving_sth := Some (map_subscript default_sth sbs sz),
                     update_required := is_master \<or> update_required st,
                     calls := calls st @ [LogCanServe sz seen, IsMaster is_master] @
                              (if is_master then [NotifyAll] else [])\<rparr>))"
    by (rule CalculateServingSTH_Inr) (simp add: floor cfg)
  from node_loop_counts [OF loop1] have
    sorted: "sorted_wrt (<) (map fst nn)" and
    count: "\<And>k. map_subscript 0 nn k =
                 int (length (filter (\<lambda>sth. tree_size sth = k) (node_sths (all_node_states st))))" and
    keys: "fst ` set nn = ?sizes" and
    nonneg: "\<forall>sth \<in> set (node_sths (all_node_states st)). 0 \<le> tree_size sth"
    by simp_all
  from some keys have "rev nn \<noteq> []" by auto
  then obtain d rest where ds: "rev nn = d # rest" by (cases "rev nn") auto
  have desc: "sorted_wrt (>) (map fst (rev nn))"
    using sorted by (simp add: rev_map [symmetric] sorted_wrt_rev)
  have keys': "fst ` set (d # rest) = ?sizes"
    using keys ds by (metis set_rev)
  have "\<forall>k \<in> fst ` set (d # rest). k \<le> fst d"
    using desc ds by auto
  then have "Max (fst ` set (d # rest)) = fst d"
    by (intro Max_eqI) auto
  with keys' have largest: "fst d = Max ?sizes" by simp
  have "fst d \<in> fst ` set (d # rest)" by simp
  with keys' have "fst d \<in> ?sizes" by blast
  with nonneg have "0 \<le> fst d" by auto
  have "distinct (map fst nn)"
    using sorted by (simp add: strict_sorted_iff)
  moreover have "(fst d, snd d) \<in> set nn"
    using ds by (metis list.set_intros(1) prod.collapse set_rev)
  ultimately have "map_of nn (fst d) = Some (snd d)"
    by (rule map_of_is_SomeI)
  then have "map_subscript 0 nn (fst d) = snd d"
    by (simp add: map_subscript_def)
  with count [of "fst d"] have "0 \<le> snd d" by simp
  with \<open>0 \<le> fst d\<close> double_div_nonneg [of "snd d" "length (all_node_states st)"]
  have "size_loop (rev nn) 0 0 (length (all_node_states st)) default_config =
      Some (fst d, snd d)"
    by (simp add: ds default_config_def)
  with out loop1 largest show ?thesis by auto
qed


lemma default_config_serves_best:
  assumes none: "calculated_serving_sth st = None"
    and cfg: "cluster_config st = default_config"
    and stamped: "sth \<in> set (node_sths (all_node_states st))"
      "tree_size sth = Max (tree_size ` set (node_sths (all_node_states st)))"
      "0 < timestamp sth"
    and calc: "CalculateServingSTH st is_master = Inr st'"
  shows "\<exists>best \<in> set (node_sths (all_node_states st)).
           calculated_serving_sth st' = Some best \<and>
           tree_size best = Max (tree_size ` set (node_sths (all_node_states st))) \<and>
           (\<forall>sth' \<in> set (node_sths (all_node_states st)).
              tree_size sth' = tree_size best \<longrightarrow> timestamp sth' \<le> timestamp best)"
proof -
  from stamped(1) have "node_sths (all_node_states st) \<noteq> []" by auto
  from default_config_serves_largest [OF none cfg this calc] obtain sbs nn seen where
    loop1: "node_loop (all_node_states st) [] [] = Inr (sbs, nn)" and
    st': "calculated_serving_sth st' =
            Some (map_subscript default_sth sbs
                    (Max (tree_size ` set (node_sths (all_node_states st)))))"
    by auto
  from node_loop_best [OF loop1 stamped] st' show ?thesis by auto
qed

end
